theory Spec2Isabelle
  imports Main "HOL-Library.Word"
begin

unbundle bit_operations_syntax

section \<open>The ticker event queue of \<open>source/ticker_api.c\<close>\<close>

subsection \<open>Data model\<close>

text \<open>
  Modelled from the spec: \<open>ticker_api.h\<close> is not part of the sources. The spec describes
  a timestamp as an unsigned fixed-width counter value and an event id as an opaque 32-bit
  value; the handler stores the difference of two timestamps in a \<open>uint32_t\<close>, so
  \<open>timestamp_t\<close> is taken as \<open>uint32_t\<close>. The comparison predicate
  \<open>ticker_timeIsInPeriod\<close> is embedded for every width.
\<close>

type_synonym timestamp_t = "32 word"

text \<open>
  An address of a caller-owned \<open>ticker_event_t\<close> record, and the address of a handler
  function. A pointer that may be \<open>NULL\<close> is an \<open>option\<close>.
\<close>

type_synonym addr = nat
type_synonym fptr = nat

text \<open>
  \<open>struct ticker_event_s { timestamp; id; next }\<close>. The fields \<open>id\<close> and \<open>next\<close>
  carry a suffix, since both names are taken in Isabelle.
\<close>

record ticker_event_t =
  timestamp :: timestamp_t
  id_ev :: "32 word"
  next_ev :: "addr option"

text \<open>
  The four build-time constants of \<open>ticker_api.h\<close>. Their values are not in the sources,
  so every operation takes them as a parameter.
\<close>

record ticker_consts =
  TICKER_TIME_MASK :: "32 word"
  TICKER_FUTURE_TOLERANCE :: "32 word"
  TICKER_PAST_TOLERANCE :: "32 word"
  TICKER_EXPECT_ISR_DELAY :: "32 word"

text \<open>
  The calls the code makes on the hardware: the members of \<open>data->interface\<close> other than
  \<open>read\<close>, and the two CMSIS intrinsics \<open>__disable_irq\<close> and \<open>__enable_irq\<close>.
\<close>

datatype hw_call =
  Init
  | Clear_interrupt
  | Disable_interrupt
  | Set_interrupt timestamp_t
  | Disable_irq
  | Enable_irq

text \<open>
  What \<open>const ticker_data_t *data\<close> gives access to. \<open>head\<close> and \<open>event_handler\<close> are
  the two fields of \<open>data->queue\<close>; \<open>events\<close> is the memory holding the event records;
  \<open>hw_calls\<close> lists the hardware calls made so far, oldest first; \<open>counter\<close> is what
  \<open>data->interface->read()\<close> returns at its n-th call and \<open>reads\<close> counts the calls made.
\<close>

record ticker_data_t =
  head :: "addr option"
  event_handler :: "fptr option"
  events :: "addr \<Rightarrow> ticker_event_t"
  hw_calls :: "hw_call list"
  counter :: "nat \<Rightarrow> timestamp_t"
  reads :: nat

definition hw :: "hw_call \<Rightarrow> ticker_data_t \<Rightarrow> ticker_data_t" where
  "hw c s = s\<lparr>hw_calls := hw_calls s @ [c]\<rparr>"

definition interface_read :: "ticker_data_t \<Rightarrow> timestamp_t \<times> ticker_data_t" where
  "interface_read s = (counter s (reads s), s\<lparr>reads := Suc (reads s)\<rparr>)"

text \<open>
  The behaviour of the handler functions: \<open>cb f i\<close> is what calling the function at
  address \<open>f\<close> with the id \<open>i\<close> does to the state. A handler may call the queue's
  operations itself.
\<close>

type_synonym handlers = "fptr \<Rightarrow> 32 word \<Rightarrow> ticker_data_t \<Rightarrow> ticker_data_t"

subsection \<open>The wrap-around comparison\<close>

text \<open>\<open>ticker_timeIsInPeriod\<close>, lines 141 to 163.\<close>

definition ticker_timeIsInPeriod :: "'a::len word \<Rightarrow> 'a word \<Rightarrow> 'a word \<Rightarrow> bool" where
  "ticker_timeIsInPeriod start time end' =
     ((time \<ge> start \<and> (time < end' \<or> start \<ge> end')) \<or>
      (time < start \<and> end' < start \<and> end' > time))"

text \<open>
  The spec's circular-distance model, in the spec's words: with \<open>reference_now\<close> as the
  origin, the age of a timestamp is \<open>(timestamp - reference_now) mod 2^W\<close>. Subtraction
  of words is subtraction modulo \<open>2^W\<close> (lemma \<open>age_mod\<close> below).
\<close>

definition age :: "'a::len word \<Rightarrow> 'a word \<Rightarrow> 'a word" where
  "age reference_now t = t - reference_now"

subsection \<open>Setup and read\<close>

text \<open>\<open>ticker_set_handler\<close>, lines 23 to 27, and \<open>ticker_read\<close>, lines 135 to 138.\<close>

definition ticker_set_handler :: "ticker_data_t \<Rightarrow> fptr option \<Rightarrow> ticker_data_t" where
  "ticker_set_handler s handler = (hw Init s)\<lparr>event_handler := handler\<rparr>"

definition ticker_read :: "ticker_data_t \<Rightarrow> timestamp_t \<times> ticker_data_t" where
  "ticker_read s = interface_read s"

subsection \<open>Drain\<close>

text \<open>
  The \<open>while (1)\<close> loop of \<open>ticker_irq_handler\<close>, lines 33 to 63. It may run forever, so
  not returning is the value \<open>None\<close>. The list \<open>acc\<close> is an observer, not program state:
  it collects the ids the registered handler has been called with, oldest first.
\<close>

partial_function (option) irq_loop ::
  "ticker_consts \<Rightarrow> handlers \<Rightarrow> 32 word list \<Rightarrow> ticker_data_t \<Rightarrow> (32 word list \<times> ticker_data_t) option"
where
  "irq_loop c cb acc s =
     (case head s of
        None \<Rightarrow> Some (acc, hw Disable_interrupt s)
      | Some h \<Rightarrow>
          (let ticksNow = fst (interface_read s);
               s1 = snd (interface_read s);
               diff = (timestamp (events s1 h) - ticksNow) AND TICKER_TIME_MASK c
           in if diff \<le> TICKER_FUTURE_TOLERANCE c \<or> diff > TICKER_PAST_TOLERANCE c
              then (let p = h;
                        s2 = s1\<lparr>head := next_ev (events s1 h)\<rparr>
                    in case event_handler s2 of
                         None \<Rightarrow> irq_loop c cb acc s2
                       | Some f \<Rightarrow>
                           irq_loop c cb (acc @ [id_ev (events s2 p)])
                             (cb f (id_ev (events s2 p)) s2))
              else Some (acc, hw (Set_interrupt (timestamp (events s1 h))) s1)))"

text \<open>\<open>ticker_irq_handler\<close>, lines 29 to 64.\<close>

definition ticker_irq_handler ::
  "ticker_consts \<Rightarrow> handlers \<Rightarrow> ticker_data_t \<Rightarrow> (32 word list \<times> ticker_data_t) option" where
  "ticker_irq_handler c cb s = irq_loop c cb [] (hw Clear_interrupt s)"

subsection \<open>Insert\<close>

text \<open>
  The scan of \<open>ticker_insert_event\<close>, lines 85 to 94: it returns the final \<open>prev\<close> and
  \<open>p\<close>. On a chain that loops back on itself the scan never ends (\<open>None\<close>).
\<close>

partial_function (option) insert_scan ::
  "(addr \<Rightarrow> ticker_event_t) \<Rightarrow> timestamp_t \<Rightarrow> timestamp_t \<Rightarrow> addr option \<Rightarrow> addr option
     \<Rightarrow> (addr option \<times> addr option) option"
where
  "insert_scan m actCnt ts prev p =
     (case p of
        None \<Rightarrow> Some (prev, p)
      | Some a \<Rightarrow>
          if ticker_timeIsInPeriod actCnt ts (timestamp (m a)) then Some (prev, p)
          else insert_scan m actCnt ts p (next_ev (m a)))"

text \<open>\<open>ticker_insert_event\<close>, lines 66 to 106.\<close>

definition ticker_insert_event ::
  "ticker_consts \<Rightarrow> ticker_data_t \<Rightarrow> addr \<Rightarrow> timestamp_t \<Rightarrow> 32 word \<Rightarrow> ticker_data_t option" where
  "ticker_insert_event c s obj timestamp0 i =
     (let s1 = hw Disable_irq s;
          actCnt = fst (interface_read s1) - TICKER_EXPECT_ISR_DELAY c;
          s2 = snd (interface_read s1);
          ts = timestamp0 AND TICKER_TIME_MASK c;
          s3 = s2\<lparr>events := (events s2)(obj := (events s2 obj)\<lparr>timestamp := ts, id_ev := i\<rparr>)\<rparr>
      in case insert_scan (events s3) actCnt ts None (head s3) of
           None \<Rightarrow> None
         | Some (prev, p) \<Rightarrow>
             (let s4 = (case prev of
                          None \<Rightarrow> hw (Set_interrupt ts) (s3\<lparr>head := Some obj\<rparr>)
                        | Some q \<Rightarrow>
                            s3\<lparr>events := (events s3)(q := (events s3 q)\<lparr>next_ev := Some obj\<rparr>)\<rparr>);
                  s5 = s4\<lparr>events := (events s4)(obj := (events s4 obj)\<lparr>next_ev := p\<rparr>)\<rparr>
              in Some (hw Enable_irq s5)))"

subsection \<open>Remove\<close>

text \<open>
  The scan of \<open>ticker_remove_event\<close>, lines 122 to 129: it returns the event memory
  after the scan.
\<close>

partial_function (option) remove_scan ::
  "(addr \<Rightarrow> ticker_event_t) \<Rightarrow> addr \<Rightarrow> addr option \<Rightarrow> (addr \<Rightarrow> ticker_event_t) option"
where
  "remove_scan m obj p =
     (case p of
        None \<Rightarrow> Some m
      | Some a \<Rightarrow>
          if next_ev (m a) = Some obj then Some (m(a := (m a)\<lparr>next_ev := next_ev (m obj)\<rparr>))
          else remove_scan m obj (next_ev (m a)))"

text \<open>\<open>ticker_remove_event\<close>, lines 108 to 133.\<close>

definition ticker_remove_event :: "ticker_data_t \<Rightarrow> addr \<Rightarrow> ticker_data_t option" where
  "ticker_remove_event s obj =
     (let s1 = hw Disable_irq s
      in if head s1 = Some obj
         then (let s2 = s1\<lparr>head := next_ev (events s1 obj)\<rparr>;
                   s3 = (case head s2 of
                           None \<Rightarrow> hw Disable_interrupt s2
                         | Some h \<Rightarrow> hw (Set_interrupt (timestamp (events s2 h))) s2)
               in Some (hw Enable_irq s3))
         else (case remove_scan (events s1) obj (head s1) of
                 None \<Rightarrow> None
               | Some m \<Rightarrow> Some (hw Enable_irq (s1\<lparr>events := m\<rparr>))))"

subsection \<open>Well-formed queues\<close>

text \<open>
  \<open>chain m p as\<close>: following \<open>next\<close> from the pointer \<open>p\<close> visits exactly the records
  \<open>as\<close>, in this order, and then reaches \<open>NULL\<close>.
\<close>

fun chain :: "(addr \<Rightarrow> ticker_event_t) \<Rightarrow> addr option \<Rightarrow> addr list \<Rightarrow> bool" where
  "chain m p [] = (p = None)"
| "chain m p (a # as) = (p = Some a \<and> chain m (next_ev (m a)) as)"

text \<open>The pointer to the first record of a list of records: \<open>NULL\<close> for the empty list.\<close>

definition ptr :: "addr list \<Rightarrow> addr option" where
  "ptr as = (case as of [] \<Rightarrow> None | a # _ \<Rightarrow> Some a)"

text \<open>
  The hardware call that arms for the first of the records \<open>as\<close>, or disables arming when
  there is none.
\<close>

definition arm_call :: "(addr \<Rightarrow> ticker_event_t) \<Rightarrow> addr list \<Rightarrow> hw_call" where
  "arm_call m as = (case as of [] \<Rightarrow> Disable_interrupt | a # _ \<Rightarrow> Set_interrupt (timestamp (m a)))"

text \<open>
  The test the scan of \<open>ticker_insert_event\<close> makes at a record \<open>a\<close> of the queue \<open>s\<close>,
  for a new timestamp \<open>t\<close> (line 88): the new event comes before \<open>a\<close>, so the scan stops.
  The origin is the counter value read at the start of the call, less the expected delay.
\<close>

definition scan_stops :: "ticker_consts \<Rightarrow> ticker_data_t \<Rightarrow> timestamp_t \<Rightarrow> addr \<Rightarrow> bool" where
  "scan_stops c s t a =
     ticker_timeIsInPeriod (counter s (reads s) - TICKER_EXPECT_ISR_DELAY c)
       (t AND TICKER_TIME_MASK c) (timestamp (events s a))"

text \<open>
  The order the queue is meant to keep: seen from the origin \<open>r\<close>, the ages of the
  timestamps along the chain never decrease, so the first record is one that is due soonest.
\<close>

definition age_sorted :: "timestamp_t \<Rightarrow> (addr \<Rightarrow> ticker_event_t) \<Rightarrow> addr list \<Rightarrow> bool" where
  "age_sorted r m as =
     sorted_wrt (\<lambda>a b. age r (timestamp (m a)) \<le> age r (timestamp (m b))) as"

text \<open>
  The test of lines 41 to 44 of \<open>ticker_irq_handler\<close>, for a head timestamp \<open>ts\<close> and a
  counter value \<open>ticksNow\<close>: the event is treated as due.
\<close>

definition event_due :: "ticker_consts \<Rightarrow> timestamp_t \<Rightarrow> timestamp_t \<Rightarrow> bool" where
  "event_due c ts ticksNow =
     (let diff = (ts - ticksNow) AND TICKER_TIME_MASK c
      in diff \<le> TICKER_FUTURE_TOLERANCE c \<or> diff > TICKER_PAST_TOLERANCE c)"

text \<open>
  A set of handlers that perform no insert and no remove: a call leaves the head, the event
  records and the registered handler as they are (and does not replace the counter). It may
  read the counter and call the hardware.
\<close>

definition keeps_queue :: "handlers \<Rightarrow> bool" where
  "keeps_queue cb =
     (\<forall>f i s. head (cb f i s) = head s \<and> events (cb f i s) = events s
        \<and> event_handler (cb f i s) = event_handler s \<and> counter (cb f i s) = counter s)"


text \<open>
  Handlers that perform no insert: called on a well-formed queue, a handler leaves a
  well-formed queue that is not longer than the one it found. It may remove events.
\<close>

definition never_lengthens :: "handlers \<Rightarrow> bool" where
  "never_lengthens cb =
     (\<forall>f i s as. chain (events s) (head s) as \<longrightarrow>
        (\<exists>bs. chain (events (cb f i s)) (head (cb f i s)) bs \<and> length bs \<le> length as))"

subsection \<open>Sample data\<close>

text \<open>
  Sample values for the four constants, used where a statement is evaluated on a concrete
  queue: a full 32-bit mask, a near-future tolerance of 5 ticks, a past tolerance of half
  the counter range and an expected interrupt delay of 10 ticks.
\<close>

definition sample_consts :: ticker_consts where
  "sample_consts =
     \<lparr>TICKER_TIME_MASK = 0xFFFFFFFF, TICKER_FUTURE_TOLERANCE = 5,
      TICKER_PAST_TOLERANCE = 0x7FFFFFFF, TICKER_EXPECT_ISR_DELAY = 10\<rparr>"

definition ev :: "timestamp_t \<Rightarrow> 32 word \<Rightarrow> addr option \<Rightarrow> ticker_event_t" where
  "ev t i n = \<lparr>timestamp = t, id_ev = i, next_ev = n\<rparr>"

text \<open>A queue over the given memory and head, with the handler at address 0 registered,
  no hardware call made yet and a counter that reads \<open>now\<close> at every call.\<close>

definition queue_at :: "(addr \<Rightarrow> ticker_event_t) \<Rightarrow> addr option \<Rightarrow> timestamp_t \<Rightarrow> ticker_data_t" where
  "queue_at m h now =
     \<lparr>head = h, event_handler = Some 0, events = m, hw_calls = [],
      counter = (\<lambda>_. now), reads = 0\<rparr>"

text \<open>Event memory in which no record is linked to another.\<close>

definition no_events :: "addr \<Rightarrow> ticker_event_t" where
  "no_events = (\<lambda>_. ev 0 0 None)"

text \<open>Three records at the addresses 1, 2 and 3, linked in this order, with the
  timestamps 100, 200 and 300 and the ids 11, 12 and 13; record 4 is not linked.\<close>

definition three_events :: "addr \<Rightarrow> ticker_event_t" where
  "three_events =
     no_events(1 := ev 100 11 (Some 2), 2 := ev 200 12 (Some 3), 3 := ev 300 13 None)"

text \<open>A counter that returns the listed values at its first reads and \<open>now\<close> from then
  on.\<close>

definition counter_steps :: "timestamp_t list \<Rightarrow> timestamp_t \<Rightarrow> nat \<Rightarrow> timestamp_t" where
  "counter_steps xs now k = (if k < length xs then xs ! k else now)"


text \<open>The queue of \<open>three_events\<close> after three reads of a counter that read 10 three times
  and reads 1000 from then on.\<close>

definition history_queue :: ticker_data_t where
  "history_queue =
     (queue_at three_events (Some 1) 0)\<lparr>counter := counter_steps [10, 10, 10] 1000, reads := 3\<rparr>"

text \<open>Two records in the order 1, 2 with the timestamps 100 and 200 and the ids 21 and 22,
  as two inserts build it while the counter reads 10 (lemma \<open>stale_events_built\<close>).\<close>

definition stale_events :: "addr \<Rightarrow> ticker_event_t" where
  "stale_events = no_events(1 := ev 100 21 (Some 2), 2 := ev 200 22 None)"

text \<open>A sequence of \<open>ticker_insert_event\<close> calls, each given as record, timestamp and id.\<close>

fun insert_seq ::
  "ticker_consts \<Rightarrow> ticker_data_t \<Rightarrow> (addr \<times> timestamp_t \<times> 32 word) list \<Rightarrow> ticker_data_t option" where
  "insert_seq c s [] = Some s"
| "insert_seq c s ((obj, t, i) # xs) =
     (case ticker_insert_event c s obj t i of None \<Rightarrow> None | Some s' \<Rightarrow> insert_seq c s' xs)"

text \<open>A handler that does nothing.\<close>

definition idle_handler :: handlers where
  "idle_handler f i s = s"

text \<open>A handler that removes the record at address 3 from the queue.\<close>

definition cancel_handler :: handlers where
  "cancel_handler f i s = (case ticker_remove_event s 3 of None \<Rightarrow> s | Some s' \<Rightarrow> s')"

text \<open>A handler that inserts the record at address 1 again, with the timestamp 0 and the
  id it was called with.\<close>

definition rearm_handler :: "ticker_consts \<Rightarrow> handlers" where
  "rearm_handler c f i s =
     (case ticker_insert_event c s 1 0 i of None \<Rightarrow> s | Some s' \<Rightarrow> s')"

text \<open>A queue holding the single record at address 1, with the timestamp 0 and the id 7,
  while the counter reads 0.\<close>

definition rearm_queue :: ticker_data_t where
  "rearm_queue = queue_at (no_events(1 := ev 0 7 None)) (Some 1) 0"

text \<open>What stays true of the queue each time \<open>rearm_handler\<close> has run in the drain loop.\<close>

definition rearm_inv :: "ticker_data_t \<Rightarrow> bool" where
  "rearm_inv s \<longleftrightarrow>
     head s = Some 1 \<and> timestamp (events s 1) = 0 \<and> next_ev (events s 1) = None
     \<and> event_handler s = Some 0 \<and> counter s = (\<lambda>_. 0)"

section \<open>The comparison predicate\<close>

lemma age_mod: "uint (age r t) = (uint t - uint r) mod 2 ^ LENGTH('a)"
  for r t :: "'a::len word"
  by (simp add: age_def uint_word_ariths)

lemma unat_age:
  "unat (age s t) =
     (if unat s \<le> unat t then unat t - unat s else unat t + 2 ^ LENGTH('a) - unat s)"
  for s t :: "'a::len word"
  by (simp add: age_def unat_sub_if')

lemma period_nat:
  fixes a b c N :: nat
  assumes "a < N" "b < N" "c < N"
  shows "((a \<le> b \<and> (b < c \<or> c \<le> a)) \<or> (b < a \<and> c < a \<and> b < c)) =
         ((if a \<le> b then b - a else b + N - a) < (if a \<le> c then c - a else c + N - a)
          \<or> (c = a \<and> a \<le> b))"
  using assms by (auto split: if_splits)

text \<open>
  What the predicate computes, for every width: the candidate's age is strictly smaller
  than the boundary's, or the boundary is the origin itself and the candidate is not below
  the origin as a plain number.
\<close>

lemma timeIsInPeriod_age:
  "ticker_timeIsInPeriod s t e = (age s t < age s e \<or> (e = s \<and> s \<le> t))"
  unfolding ticker_timeIsInPeriod_def word_less_nat_alt word_le_nat_alt unat_age
    word_unat_eq_iff
  by (rule period_nat) (rule unsigned_less)+

text \<open>
  C1, as stated: the predicate is true exactly when the candidate's age is at most the
  boundary's. It fails where the two timestamps are equal and differ from the origin.
\<close>

theorem C1_counterexample:
  "\<not> (ticker_timeIsInPeriod (0 :: 32 word) 1 1 \<longleftrightarrow> age (0 :: 32 word) 1 \<le> age 0 1)"
  by (simp add: ticker_timeIsInPeriod_def)

text \<open>
  C1, amended: for a boundary different from the origin, the predicate is true exactly when
  the candidate's age is strictly smaller than the boundary's; and it is true when origin,
  candidate and boundary are all equal.
\<close>

theorem C1_strict_age:
  "(e \<noteq> s \<longrightarrow> (ticker_timeIsInPeriod s t e \<longleftrightarrow> age s t < age s e))
   \<and> ticker_timeIsInPeriod s s s"
  by (simp add: timeIsInPeriod_age)

theorem C1_strict_age_witness:
  "(2 :: 32 word) \<noteq> 0 \<and> ticker_timeIsInPeriod (0 :: 32 word) 1 2
   \<and> age (0 :: 32 word) 1 < age 0 2 \<and> ticker_timeIsInPeriod (0 :: 32 word) 0 0"
  using C1_strict_age [of "2 :: 32 word" 0 1] by (simp add: age_def)

text \<open>
  C2, as stated: a candidate equal to the boundary is always in the period. It fails for
  origin 0 and both timestamps 1.
\<close>

theorem C2_counterexample: "\<not> ticker_timeIsInPeriod (0 :: 32 word) 1 1"
  by (simp add: ticker_timeIsInPeriod_def)

text \<open>
  C2, amended: a candidate equal to the boundary is in the period exactly when it is also
  equal to the origin.
\<close>

theorem C2_self_inclusion_iff: "ticker_timeIsInPeriod s t t \<longleftrightarrow> s = t"
  unfolding ticker_timeIsInPeriod_def by auto

section \<open>Chains of records\<close>

lemma chain_cong:
  "(\<And>b. b \<in> set as \<Longrightarrow> next_ev (m' b) = next_ev (m b)) \<Longrightarrow> chain m' p as = chain m p as"
  by (induction as arbitrary: p) auto

lemma chain_upd: "a \<notin> set as \<Longrightarrow> chain (m(a := v)) p as = chain m p as"
  by (rule chain_cong) auto

lemma chain_unique: "chain m p as \<Longrightarrow> chain m p bs \<Longrightarrow> as = bs"
proof (induction as arbitrary: p bs)
  case Nil
  then show ?case by (cases bs) auto
next
  case (Cons a as)
  then show ?case by (cases bs) auto
qed

lemma chain_suffix: "chain m p (xs @ a # ys) \<Longrightarrow> chain m (next_ev (m a)) ys"
  by (induction xs arbitrary: p) auto

lemma chain_not_in_tail: "chain m (next_ev (m a)) as \<Longrightarrow> a \<notin> set as"
proof
  assume c: "chain m (next_ev (m a)) as" and "a \<in> set as"
  then obtain xs ys where as: "as = xs @ a # ys" by (auto simp: in_set_conv_decomp)
  with c have "chain m (next_ev (m a)) ys" by (auto dest: chain_suffix)
  with c have "as = ys" by (rule chain_unique)
  with as show False by simp
qed

lemma chain_distinct: "chain m p as \<Longrightarrow> distinct as"
  by (induction as arbitrary: p) (auto dest: chain_not_in_tail)

lemma chain_ptr: "chain m p as \<Longrightarrow> p = ptr as"
  by (cases as) (simp_all add: ptr_def)

section \<open>Remove\<close>

lemma chain_next_in: "chain m p as \<Longrightarrow> a \<in> set as \<Longrightarrow> next_ev (m a) = Some b \<Longrightarrow> b \<in> set as"
proof (induction as arbitrary: p)
  case Nil
  then show ?case by simp
next
  case (Cons x xs)
  then show ?case by (cases xs) auto
qed

lemma remove_scan_absent:
  "chain m p as \<Longrightarrow> obj \<notin> set as \<Longrightarrow> remove_scan m obj p = Some m"
proof (induction as arbitrary: p)
  case Nil
  then show ?case by (simp add: remove_scan.simps)
next
  case (Cons a as)
  from Cons.prems have p: "p = Some a" and c: "chain m (next_ev (m a)) as" by auto
  from Cons.prems have "next_ev (m a) \<noteq> Some obj"
    using chain_next_in [of m p "a # as" a obj] by auto
  with Cons p c show ?case by (subst remove_scan.simps) simp
qed

lemma remove_scan_present:
  "chain m p (pre @ obj # post) \<Longrightarrow> pre \<noteq> [] \<Longrightarrow>
   remove_scan m obj p = Some (m(last pre := (m (last pre))\<lparr>next_ev := next_ev (m obj)\<rparr>))"
proof (induction pre arbitrary: p)
  case Nil
  then show ?case by simp
next
  case (Cons a pre)
  from Cons.prems have p: "p = Some a" and c: "chain m (next_ev (m a)) (pre @ obj # post)" by auto
  show ?case
  proof (cases pre)
    case Nil
    with c have "next_ev (m a) = Some obj" by simp
    moreover from Nil have "last (a # pre) = a" by simp
    ultimately show ?thesis using p by (subst remove_scan.simps) simp
  next
    case (Cons b bs)
    with c have nb: "next_ev (m a) = Some b" by simp
    from Cons.prems(1) have "distinct ((a # pre) @ obj # post)" by (rule chain_distinct)
    with Cons have "b \<noteq> obj" by auto
    with nb p have "remove_scan m obj p = remove_scan m obj (next_ev (m a))"
      by (subst remove_scan.simps) simp
    moreover from Cons have ne: "pre \<noteq> []" and "last (a # pre) = last pre" by simp_all
    ultimately show ?thesis using Cons.IH [OF c ne] by (simp only:)
  qed
qed

lemma chain_unlink:
  assumes "chain m p (pre @ obj # post)" "pre \<noteq> []"
  shows "chain (m(last pre := (m (last pre))\<lparr>next_ev := next_ev (m obj)\<rparr>)) p (pre @ post)"
  using assms
proof (induction pre arbitrary: p)
  case Nil
  then show ?case by simp
next
  case (Cons a pre)
  from Cons.prems have p: "p = Some a" and c: "chain m (next_ev (m a)) (pre @ obj # post)" by auto
  from Cons.prems(1) have d: "distinct ((a # pre) @ obj # post)" by (rule chain_distinct)
  show ?case
  proof (cases pre)
    case Nil
    with c have n: "next_ev (m a) = Some obj" and cp: "chain m (next_ev (m obj)) post" by auto
    from d Nil have "a \<notin> set post" by auto
    then have "chain (m(a := (m a)\<lparr>next_ev := next_ev (m obj)\<rparr>)) (next_ev (m obj)) post"
      using cp chain_upd [of a post m _ "next_ev (m obj)"] by blast
    moreover from Nil have "last (a # pre) = a" "(a # pre) @ post = a # post" by simp_all
    ultimately show ?thesis using p by (simp del: fun_upd_apply add: fun_upd_same)
  next
    case (Cons b bs)
    then have ne: "pre \<noteq> []" and l: "last (a # pre) = last pre" by simp_all
    from d ne have "a \<noteq> last pre" by auto
    then have "next_ev ((m(last pre := (m (last pre))\<lparr>next_ev := next_ev (m obj)\<rparr>)) a) = next_ev (m a)"
      by simp
    with Cons.IH [OF c ne] p show ?thesis unfolding l by (simp del: fun_upd_apply)
  qed
qed

lemma remove_head:
  "head s = Some obj \<Longrightarrow>
   ticker_remove_event s obj =
     Some (s\<lparr>head := next_ev (events s obj),
             hw_calls := hw_calls s @
               [Disable_irq,
                case next_ev (events s obj) of
                  None \<Rightarrow> Disable_interrupt
                | Some h \<Rightarrow> Set_interrupt (timestamp (events s h)),
                Enable_irq]\<rparr>)"
  by (simp add: ticker_remove_event_def hw_def Let_def split: option.split)

lemma remove_absent:
  assumes "chain (events s) (head s) as" "obj \<notin> set as"
  shows "ticker_remove_event s obj = Some (s\<lparr>hw_calls := hw_calls s @ [Disable_irq, Enable_irq]\<rparr>)"
proof -
  from assms have "head s \<noteq> Some obj" by (cases as) auto
  moreover from assms have "remove_scan (events s) obj (head s) = Some (events s)"
    by (rule remove_scan_absent)
  ultimately show ?thesis by (simp add: ticker_remove_event_def hw_def Let_def)
qed

lemma remove_inner:
  assumes "chain (events s) (head s) (pre @ obj # post)" "pre \<noteq> []"
  shows "ticker_remove_event s obj =
     Some (s\<lparr>events := (events s)(last pre := (events s (last pre))\<lparr>next_ev := next_ev (events s obj)\<rparr>),
             hw_calls := hw_calls s @ [Disable_irq, Enable_irq]\<rparr>)"
proof -
  from assms(1) have "distinct (pre @ obj # post)" by (rule chain_distinct)
  with assms have "head s \<noteq> Some obj" by (cases pre) auto
  moreover note remove_scan_present [OF assms]
  ultimately show ?thesis by (simp add: ticker_remove_event_def hw_def Let_def)
qed

lemma chain_pred:
  assumes "chain m p (pre @ obj # post)" "pre \<noteq> []"
  shows "next_ev (m (last pre)) = Some obj"
  using assms
proof (induction pre arbitrary: p)
  case Nil
  then show ?case by simp
next
  case (Cons a pre)
  then show ?case by (cases pre) auto
qed

text \<open>
  C5: removing the head event unlinks it and arms the hardware for the new head's
  timestamp, or disables arming when the queue becomes empty; removing any other record of
  a well-formed queue makes no arming and no disarming call: the only hardware calls are
  \<open>__disable_irq\<close> and \<open>__enable_irq\<close>, and the head stays.
\<close>

theorem C5_remove_arming:
  "(head s = Some obj \<longrightarrow>
      ticker_remove_event s obj =
        Some (s\<lparr>head := next_ev (events s obj),
                hw_calls := hw_calls s @
                  [Disable_irq,
                   case next_ev (events s obj) of
                     None \<Rightarrow> Disable_interrupt
                   | Some h \<Rightarrow> Set_interrupt (timestamp (events s h)),
                   Enable_irq]\<rparr>))
   \<and> (head s \<noteq> Some obj \<and> chain (events s) (head s) as \<longrightarrow>
        (\<exists>m'. ticker_remove_event s obj =
           Some (s\<lparr>events := m', hw_calls := hw_calls s @ [Disable_irq, Enable_irq]\<rparr>)))"
proof (intro conjI impI)
  assume "head s = Some obj"
  then show "ticker_remove_event s obj =
        Some (s\<lparr>head := next_ev (events s obj),
                hw_calls := hw_calls s @
                  [Disable_irq,
                   case next_ev (events s obj) of
                     None \<Rightarrow> Disable_interrupt
                   | Some h \<Rightarrow> Set_interrupt (timestamp (events s h)),
                   Enable_irq]\<rparr>)"
    by (rule remove_head)
next
  assume a: "head s \<noteq> Some obj \<and> chain (events s) (head s) as"
  show "\<exists>m'. ticker_remove_event s obj =
           Some (s\<lparr>events := m', hw_calls := hw_calls s @ [Disable_irq, Enable_irq]\<rparr>)"
  proof (cases "obj \<in> set as")
    case False
    with a have "ticker_remove_event s obj = Some (s\<lparr>hw_calls := hw_calls s @ [Disable_irq, Enable_irq]\<rparr>)"
      by (intro remove_absent) auto
    then show ?thesis by (intro exI [of _ "events s"]) simp
  next
    case True
    then obtain pre post where as: "as = pre @ obj # post" by (auto simp: in_set_conv_decomp)
    with a have "pre \<noteq> []" by (cases pre) auto
    with a as show ?thesis using remove_inner [of s pre obj post] by blast
  qed
qed

theorem C5_remove_arming_witness:
  "ticker_remove_event (queue_at three_events (Some 1) 0) 1 =
     Some ((queue_at three_events (Some 1) 0)
             \<lparr>head := Some 2, hw_calls := [Disable_irq, Set_interrupt 200, Enable_irq]\<rparr>)
   \<and> ticker_remove_event (queue_at three_events (Some 3) 0) 3 =
     Some ((queue_at three_events (Some 3) 0)
             \<lparr>head := None, hw_calls := [Disable_irq, Disable_interrupt, Enable_irq]\<rparr>)
   \<and> (\<exists>m'. ticker_remove_event (queue_at three_events (Some 1) 0) 2 =
         Some ((queue_at three_events (Some 1) 0)
                 \<lparr>events := m', hw_calls := [Disable_irq, Enable_irq]\<rparr>))"
  using C5_remove_arming [of "queue_at three_events (Some 1) 0" 1 "[1, 2, 3]"]
    C5_remove_arming [of "queue_at three_events (Some 3) 0" 3 "[3]"]
    C5_remove_arming [of "queue_at three_events (Some 1) 0" 2 "[1, 2, 3]"]
  by (simp add: queue_at_def three_events_def ev_def)

text \<open>
  C6: removing a record that is not linked in a well-formed queue returns and changes
  nothing: head, event records, registered handler and counter are as before, and the only
  hardware calls are \<open>__disable_irq\<close> and \<open>__enable_irq\<close>.
\<close>

theorem C6_remove_absent_noop:
  assumes "chain (events s) (head s) as" and "obj \<notin> set as"
  shows "ticker_remove_event s obj = Some (s\<lparr>hw_calls := hw_calls s @ [Disable_irq, Enable_irq]\<rparr>)"
  using assms by (rule remove_absent)

theorem C6_remove_absent_noop_witness:
  "ticker_remove_event (queue_at three_events (Some 1) 0) 4 =
     Some ((queue_at three_events (Some 1) 0)\<lparr>hw_calls := [Disable_irq, Enable_irq]\<rparr>)"
  using C6_remove_absent_noop [of "queue_at three_events (Some 1) 0" "[1, 2, 3]" 4]
  by (simp add: queue_at_def three_events_def ev_def)

section \<open>Drain\<close>

lemma irq_due_step:
  assumes "head s = Some a" "event_due c (timestamp (events s a)) (counter s (reads s))"
  shows "irq_loop c cb acc s =
     (case event_handler s of
        None \<Rightarrow> irq_loop c cb acc (s\<lparr>reads := Suc (reads s), head := next_ev (events s a)\<rparr>)
      | Some f \<Rightarrow> irq_loop c cb (acc @ [id_ev (events s a)])
           (cb f (id_ev (events s a)) (s\<lparr>reads := Suc (reads s), head := next_ev (events s a)\<rparr>)))"
  using assms
  by (subst irq_loop.simps) (simp add: interface_read_def event_due_def Let_def split: option.split)

lemma irq_not_due_step:
  assumes "head s = Some a" "\<not> event_due c (timestamp (events s a)) (counter s (reads s))"
  shows "irq_loop c cb acc s =
     Some (acc, hw (Set_interrupt (timestamp (events s a))) (s\<lparr>reads := Suc (reads s)\<rparr>))"
  using assms
  by (subst irq_loop.simps) (simp add: interface_read_def event_due_def Let_def)

lemma irq_empty: "head s = None \<Longrightarrow> irq_loop c cb acc s = Some (acc, hw Disable_interrupt s)"
  by (subst irq_loop.simps) simp


lemma irq_loop_returns:
  assumes "keeps_queue cb" and "chain (events s) (head s) as"
  shows "\<exists>n s'. n \<le> length as \<and>
           irq_loop c cb acc s =
             Some (acc @ (case event_handler s of None \<Rightarrow> [] | Some f \<Rightarrow> map (\<lambda>a. id_ev (events s a)) (take n as)),
                   hw (arm_call (events s) (drop n as)) s')
           \<and> head s' = ptr (drop n as) \<and> events s' = events s"
  using assms(2)
proof (induction as arbitrary: s acc)
  case Nil
  then have "irq_loop c cb acc s = Some (acc, hw Disable_interrupt s)" by (simp add: irq_empty)
  with Nil show ?case by (auto simp: ptr_def arm_call_def split: option.split)
next
  case (Cons a as)
  from Cons.prems have h: "head s = Some a" and c: "chain (events s) (next_ev (events s a)) as" by auto
  let ?s2 = "s\<lparr>reads := Suc (reads s), head := next_ev (events s a)\<rparr>"
  show ?case
  proof (cases "event_due c (timestamp (events s a)) (counter s (reads s))")
    case False
    with h have "irq_loop c cb acc s =
      Some (acc, hw (Set_interrupt (timestamp (events s a))) (s\<lparr>reads := Suc (reads s)\<rparr>))"
      by (rule irq_not_due_step)
    with h show ?thesis
      by (intro exI [of _ 0] exI [of _ "s\<lparr>reads := Suc (reads s)\<rparr>"]) (simp add: ptr_def arm_call_def split: option.split)
  next
    case True
    note step = irq_due_step [OF h True, of cb acc]
    show ?thesis
    proof (cases "event_handler s")
      case None
      from c have "chain (events ?s2) (head ?s2) as" by simp
      from Cons.IH [OF this, of acc] obtain n s' where
        n: "n \<le> length as" and
        r: "irq_loop c cb acc ?s2 = Some (acc, hw (arm_call (events s) (drop n as)) s')"
        and hs: "head s' = ptr (drop n as)" "events s' = events s"
        using None by auto
      with step None show ?thesis
        by (intro exI [of _ "Suc n"] exI [of _ s']) simp
    next
      case (Some f)
      let ?s3 = "cb f (id_ev (events s a)) ?s2"
      from assms(1) have k: "head ?s3 = head ?s2" "events ?s3 = events ?s2"
        "event_handler ?s3 = event_handler ?s2" "counter ?s3 = counter ?s2"
        unfolding keeps_queue_def by blast+
      with c have "chain (events ?s3) (head ?s3) as" by simp
      from Cons.IH [OF this, of "acc @ [id_ev (events s a)]"] obtain n s' where
        n: "n \<le> length as" and
        r: "irq_loop c cb (acc @ [id_ev (events s a)]) ?s3 =
            Some ((acc @ [id_ev (events s a)]) @ map (\<lambda>a. id_ev (events s a)) (take n as),
                  hw (arm_call (events s) (drop n as)) s')"
        and hs: "head s' = ptr (drop n as)" "events s' = events s"
        using Some k by auto
      with step Some show ?thesis
        by (intro exI [of _ "Suc n"] exI [of _ s']) simp
    qed
  qed
qed

subsection \<open>A handler that re-arms its event keeps the drain loop running\<close>

lemma insert_scan_None [simp]: "insert_scan m r ts prev None = Some (prev, None)"
  by (subst insert_scan.simps) simp

lemma rearm_step:
  assumes "rearm_inv s"
  shows "rearm_inv (rearm_handler c f i (s\<lparr>reads := Suc (reads s), head := next_ev (events s 1)\<rparr>))"
  using assms
  by (simp add: rearm_inv_def rearm_handler_def ticker_insert_event_def hw_def
      interface_read_def Let_def)

lemma rearm_never_returns:
  assumes "irq_loop c cb acc s = Some y"
  shows "\<not> (cb = rearm_handler c \<and> rearm_inv s)"
proof (rule irq_loop.raw_induct
    [where P = "\<lambda>c cb acc s y. \<not> (cb = rearm_handler c \<and> rearm_inv s)", OF _ assms])
  fix loop :: "ticker_consts \<Rightarrow> handlers \<Rightarrow> 32 word list \<Rightarrow> ticker_data_t \<Rightarrow> (32 word list \<times> ticker_data_t) option"
  fix c cb acc s y
  assume IH: "\<And>c cb acc s y. loop c cb acc s = Some y \<Longrightarrow> \<not> (cb = rearm_handler c \<and> rearm_inv s)"
  assume body: "(case head s of
        None \<Rightarrow> Some (acc, hw Disable_interrupt s)
      | Some h \<Rightarrow>
          (let ticksNow = fst (interface_read s);
               s1 = snd (interface_read s);
               diff = (timestamp (events s1 h) - ticksNow) AND TICKER_TIME_MASK c
           in if diff \<le> TICKER_FUTURE_TOLERANCE c \<or> diff > TICKER_PAST_TOLERANCE c
              then (let p = h;
                        s2 = s1\<lparr>head := next_ev (events s1 h)\<rparr>
                    in case event_handler s2 of
                         None \<Rightarrow> loop c cb acc s2
                       | Some f \<Rightarrow>
                           loop c cb (acc @ [id_ev (events s2 p)])
                             (cb f (id_ev (events s2 p)) s2))
              else Some (acc, hw (Set_interrupt (timestamp (events s1 h))) s1))) = Some y"
  show "\<not> (cb = rearm_handler c \<and> rearm_inv s)"
  proof
    assume a: "cb = rearm_handler c \<and> rearm_inv s"
    let ?s2 = "s\<lparr>reads := Suc (reads s), head := next_ev (events s 1)\<rparr>"
    from a have h: "head s = Some 1" and f: "event_handler s = Some 0"
      and t: "timestamp (events s 1) = 0" "counter s = (\<lambda>_. 0)"
      by (simp_all add: rearm_inv_def)
    from body h f t have
      "loop c cb (acc @ [id_ev (events s 1)]) (cb 0 (id_ev (events s 1)) ?s2) = Some y"
      by (simp add: interface_read_def Let_def)
    moreover from a have "rearm_inv (cb 0 (id_ev (events s 1)) ?s2)"
      using rearm_step [of s c 0 "id_ev (events s 1)"] by blast
    ultimately show False using IH a by blast
  qed
qed

lemma rearm_diverges: "ticker_irq_handler c (rearm_handler c) rearm_queue = None"
proof (cases "ticker_irq_handler c (rearm_handler c) rearm_queue")
  case None
  then show ?thesis .
next
  case (Some y)
  moreover have "rearm_inv (hw Clear_interrupt rearm_queue)"
    by (simp add: rearm_inv_def hw_def rearm_queue_def queue_at_def ev_def)
  ultimately show ?thesis
    unfolding ticker_irq_handler_def using rearm_never_returns by blast
qed

text \<open>
  The spec's scenario, with the sample constants: inserts of A at 100, B at 50 and C at 150,
  in this order, leave the chain B, A, C; a drain at counter value 60 dispatches B only and
  arms the hardware for 100.
\<close>

lemma spec_scenario:
  "\<exists>s'. insert_seq sample_consts (queue_at no_events None 10)
           [(1, 100, 1), (2, 50, 2), (3, 150, 3)] = Some s'
      \<and> chain (events s') (head s') [2, 1, 3]
      \<and> map_option (\<lambda>(ids, s''). (ids, head s'', last (hw_calls s'')))
            (ticker_irq_handler sample_consts idle_handler (s'\<lparr>counter := (\<lambda>_. 60)\<rparr>))
          = Some ([2], Some 1, Set_interrupt 100)"
  by (simp add: ticker_insert_event_def insert_scan.simps interface_read_def Let_def hw_def
      queue_at_def no_events_def ev_def sample_consts_def ticker_irq_handler_def irq_loop.simps
      idle_handler_def ticker_timeIsInPeriod_def)


text \<open>
  The test of lines 41 to 44 reads "at or before the current counter value" as follows, for
  a full mask and a past tolerance of at most half the counter range (as in the sample
  constants): every timestamp that lies at most half the range behind the counter value is
  due.
\<close>

lemma neg_past_half:
  fixes d :: "32 word"
  assumes "d \<noteq> 0" "d \<le> 0x7FFFFFFF"
  shows "0x7FFFFFFF < 0 - d"
proof -
  from assms(1) have "0 < unat d" by (simp add: unat_gt_0)
  moreover from assms(2) have "unat d \<le> 2147483647" by (simp add: word_le_nat_alt)
  moreover have "unat (0 - d) = (if unat d \<le> unat (0 :: 32 word) then unat (0 :: 32 word) - unat d
      else unat (0 :: 32 word) + 2 ^ LENGTH(32) - unat d)"
    by (rule unat_sub_if')
  ultimately have "2147483647 < unat (0 - d)" by simp
  then show ?thesis by (simp add: word_less_nat_alt)
qed

lemma past_is_due:
  assumes "TICKER_TIME_MASK c = 0xFFFFFFFF" and "TICKER_PAST_TOLERANCE c \<le> 0x7FFFFFFF"
    and "now - ts \<le> 0x7FFFFFFF"
  shows "event_due c ts now"
proof (cases "now - ts = 0")
  case True
  then have "ts - now = 0" by simp
  with assms(1) show ?thesis by (simp add: event_due_def)
next
  case False
  from False assms(3) have "0x7FFFFFFF < 0 - (now - ts)" by (rule neg_past_half)
  then have "0x7FFFFFFF < ts - now" by simp
  with assms(2) have "TICKER_PAST_TOLERANCE c < ts - now" by simp
  moreover have "(0xFFFFFFFF :: 32 word) = - 1" by simp
  then have "(ts - now) AND (0xFFFFFFFF :: 32 word) = ts - now" by (simp only: and.right_neutral)
  ultimately show ?thesis using assms(1) by (simp add: event_due_def Let_def)
qed

text \<open>
  The queue of \<open>history_queue\<close> is what three inserts into the empty queue leave while the
  counter reads 10.
\<close>

lemma history_queue_built:
  "insert_seq sample_consts ((queue_at no_events None 0)\<lparr>counter := counter_steps [10, 10, 10] 1000\<rparr>)
     [(1, 100, 11), (2, 200, 12), (3, 300, 13)] =
   Some (history_queue\<lparr>hw_calls := [Disable_irq, Set_interrupt 100, Enable_irq,
                                   Disable_irq, Enable_irq, Disable_irq, Enable_irq]\<rparr>)"
  by (simp add: ticker_insert_event_def insert_scan.simps interface_read_def Let_def hw_def
      history_queue_def counter_steps_def queue_at_def three_events_def no_events_def ev_def
      sample_consts_def ticker_timeIsInPeriod_def fun_eq_iff)



text \<open>
  C8, as stated: the drain loop always terminates. With a handler that inserts its event
  again, due at once, the loop never returns.
\<close>

theorem C8_counterexample:
  "ticker_irq_handler sample_consts (rearm_handler sample_consts) rearm_queue = None"
  by (rule rearm_diverges)

text \<open>
  A removal from a well-formed queue leaves a well-formed queue that is not longer, so a
  handler that removes an event performs no insert in the sense of \<open>never_lengthens\<close>; so
  does every handler that leaves the queue alone.
\<close>

lemma remove_event_chain:
  assumes "chain (events s) (head s) as"
  shows "\<exists>s' bs. ticker_remove_event s obj = Some s' \<and> chain (events s') (head s') bs
           \<and> length bs \<le> length as"
proof (cases "obj \<in> set as")
  case False
  with assms have "ticker_remove_event s obj = Some (s\<lparr>hw_calls := hw_calls s @ [Disable_irq, Enable_irq]\<rparr>)"
    by (rule remove_absent)
  with assms show ?thesis by (intro exI [of _ "s\<lparr>hw_calls := hw_calls s @ [Disable_irq, Enable_irq]\<rparr>"] exI [of _ as]) simp
next
  case True
  then obtain pre post where as: "as = pre @ obj # post" by (auto simp: in_set_conv_decomp)
  show ?thesis
  proof (cases "pre = []")
    case True
    with assms as have h: "head s = Some obj" and c: "chain (events s) (next_ev (events s obj)) post"
      by auto
    let ?s' = "s\<lparr>head := next_ev (events s obj),
             hw_calls := hw_calls s @
               [Disable_irq,
                case next_ev (events s obj) of
                  None \<Rightarrow> Disable_interrupt
                | Some h \<Rightarrow> Set_interrupt (timestamp (events s h)),
                Enable_irq]\<rparr>"
    from h have "ticker_remove_event s obj = Some ?s'" by (rule remove_head)
    moreover from c have "chain (events ?s') (head ?s') post" by simp
    moreover from as have "length post \<le> length as" by simp
    ultimately show ?thesis by blast
  next
    case False
    from assms as have c: "chain (events s) (head s) (pre @ obj # post)" by simp
    let ?m = "(events s)(last pre := (events s (last pre))\<lparr>next_ev := next_ev (events s obj)\<rparr>)"
    let ?s' = "s\<lparr>events := ?m, hw_calls := hw_calls s @ [Disable_irq, Enable_irq]\<rparr>"
    from c False have "ticker_remove_event s obj = Some ?s'" by (rule remove_inner)
    moreover from chain_unlink [OF c False] have "chain (events ?s') (head ?s') (pre @ post)" by simp
    moreover from as have "length (pre @ post) \<le> length as" by simp
    ultimately show ?thesis by blast
  qed
qed

lemma cancel_never_lengthens: "never_lengthens cancel_handler"
  unfolding never_lengthens_def cancel_handler_def
proof (intro allI impI)
  fix f :: fptr and i :: "32 word" and s :: ticker_data_t and as :: "addr list"
  assume "chain (events s) (head s) as"
  from remove_event_chain [OF this, of 3] obtain s' bs where
    "ticker_remove_event s 3 = Some s'" "chain (events s') (head s') bs" "length bs \<le> length as"
    by blast
  then show "\<exists>bs. chain (events (case ticker_remove_event s 3 of None \<Rightarrow> s | Some s' \<Rightarrow> s'))
                      (head (case ticker_remove_event s 3 of None \<Rightarrow> s | Some s' \<Rightarrow> s')) bs
                \<and> length bs \<le> length as"
    by auto
qed

lemma keeps_queue_never_lengthens: "keeps_queue cb \<Longrightarrow> never_lengthens cb"
  unfolding keeps_queue_def never_lengthens_def by auto

lemma irq_loop_shrinks:
  assumes "never_lengthens cb" and "chain (events s) (head s) as"
  shows "\<exists>ids s'. irq_loop c cb acc s = Some (acc @ ids,
             hw (case head s' of None \<Rightarrow> Disable_interrupt
                 | Some h \<Rightarrow> Set_interrupt (timestamp (events s' h))) s')
           \<and> length ids \<le> length as"
  using assms(2)
proof (induction "length as" arbitrary: s as acc rule: less_induct)
  case less
  show ?case
  proof (cases as)
    case Nil
    with less.prems have h: "head s = None" by simp
    then have "irq_loop c cb acc s = Some (acc, hw Disable_interrupt s)" by (rule irq_empty)
    with h show ?thesis by (intro exI [of _ "[]"] exI [of _ s]) simp
  next
    case (Cons a as')
    with less.prems have h: "head s = Some a" and c: "chain (events s) (next_ev (events s a)) as'"
      by auto
    let ?s1 = "s\<lparr>reads := Suc (reads s)\<rparr>"
    let ?s2 = "s\<lparr>reads := Suc (reads s), head := next_ev (events s a)\<rparr>"
    show ?thesis
    proof (cases "event_due c (timestamp (events s a)) (counter s (reads s))")
      case False
      with h have "irq_loop c cb acc s = Some (acc, hw (Set_interrupt (timestamp (events s a))) ?s1)"
        by (rule irq_not_due_step)
      with h show ?thesis by (intro exI [of _ "[]"] exI [of _ ?s1]) simp
    next
      case True
      note step = irq_due_step [OF h True, of cb acc]
      from c have c2: "chain (events ?s2) (head ?s2) as'" by simp
      show ?thesis
      proof (cases "event_handler s")
        case None
        from Cons have "length as' < length as" by simp
        from less.hyps [OF this c2, of acc] obtain ids s' where
          "irq_loop c cb acc ?s2 = Some (acc @ ids,
             hw (case head s' of None \<Rightarrow> Disable_interrupt
                 | Some h \<Rightarrow> Set_interrupt (timestamp (events s' h))) s')"
          "length ids \<le> length as'"
          by blast
        with step None Cons show ?thesis by (intro exI [of _ ids] exI [of _ s']) simp
      next
        case (Some f)
        let ?s3 = "cb f (id_ev (events s a)) ?s2"
        from assms(1) c2 obtain bs where
          cb: "chain (events ?s3) (head ?s3) bs" and l: "length bs \<le> length as'"
          unfolding never_lengthens_def by blast
        with Cons have "length bs < length as" by simp
        from less.hyps [OF this cb, of "acc @ [id_ev (events s a)]"] obtain ids s' where
          "irq_loop c cb (acc @ [id_ev (events s a)]) ?s3 = Some ((acc @ [id_ev (events s a)]) @ ids,
             hw (case head s' of None \<Rightarrow> Disable_interrupt
                 | Some h \<Rightarrow> Set_interrupt (timestamp (events s' h))) s')"
          "length ids \<le> length bs"
          by blast
        with step Some Cons l show ?thesis
          by (intro exI [of _ "id_ev (events s a) # ids"] exI [of _ s']) simp
      qed
    qed
  qed
qed

text \<open>
  C8, amended: for a well-formed queue of N records and handlers that perform no insert (a
  call never leaves the chain longer than it found it; it may remove events), the drain loop
  returns after at most N dispatches. Each iteration either unlinks the head and dispatches
  one event, or ends the loop: the last hardware call arms for the timestamp of the head
  that is left, or disables arming when the queue is empty.
\<close>

theorem C8_drain_terminates:
  assumes "chain (events s) (head s) as" and "never_lengthens cb"
  shows "\<exists>ids s'. ticker_irq_handler c cb s
             = Some (ids, hw (case head s' of
                                None \<Rightarrow> Disable_interrupt
                              | Some h \<Rightarrow> Set_interrupt (timestamp (events s' h))) s')
           \<and> length ids \<le> length as"
proof -
  from assms(1) have "chain (events (hw Clear_interrupt s)) (head (hw Clear_interrupt s)) as"
    by (simp add: hw_def)
  from irq_loop_shrinks [OF assms(2) this, of c "[]"] show ?thesis
    by (simp add: ticker_irq_handler_def)
qed

theorem C8_drain_terminates_witness:
  "\<exists>ids s'. ticker_irq_handler sample_consts cancel_handler (queue_at three_events (Some 1) 150)
             = Some (ids, hw (case head s' of
                                None \<Rightarrow> Disable_interrupt
                              | Some h \<Rightarrow> Set_interrupt (timestamp (events s' h))) s')
           \<and> length ids \<le> 3"
proof -
  let ?q = "queue_at three_events (Some 1) 150"
  have c: "chain (events ?q) (head ?q) [1, 2, 3]"
    by (simp add: queue_at_def three_events_def ev_def)
  from C8_drain_terminates [OF c cancel_never_lengthens, of sample_consts] show ?thesis
    by (simp add: numeral_3_eq_3)
qed

text \<open>
  The run behind the witness: the first event is dispatched, its handler removes the record
  at address 3, and the loop arms the hardware for the second event, which is now the last.
\<close>

lemma cancel_scenario:
  "map_option (\<lambda>(ids, s'). (ids, head s', next_ev (events s' 2), last (hw_calls s')))
     (ticker_irq_handler sample_consts cancel_handler (queue_at three_events (Some 1) 150))
     = Some ([11], Some 2, None, Set_interrupt 200)"
  by (simp add: ticker_irq_handler_def irq_loop.simps interface_read_def Let_def hw_def
      queue_at_def three_events_def no_events_def ev_def sample_consts_def cancel_handler_def
      ticker_remove_event_def remove_scan.simps)

section \<open>Insert\<close>

lemma insert_scan_chain:
  assumes "chain m p as"
  shows "insert_scan m r ts prev p =
     Some (if takeWhile (\<lambda>a. \<not> ticker_timeIsInPeriod r ts (timestamp (m a))) as = [] then prev
           else Some (last (takeWhile (\<lambda>a. \<not> ticker_timeIsInPeriod r ts (timestamp (m a))) as)),
           ptr (dropWhile (\<lambda>a. \<not> ticker_timeIsInPeriod r ts (timestamp (m a))) as))"
  using assms
proof (induction as arbitrary: p prev)
  case Nil
  then show ?case by (subst insert_scan.simps) (simp add: ptr_def)
next
  case (Cons a as)
  from Cons.prems have p: "p = Some a" and c: "chain m (next_ev (m a)) as" by auto
  show ?case
  proof (cases "ticker_timeIsInPeriod r ts (timestamp (m a))")
    case True
    with p show ?thesis by (subst insert_scan.simps) (simp add: ptr_def)
  next
    case False
    with p have "insert_scan m r ts prev p = insert_scan m r ts (Some a) (next_ev (m a))"
      by (subst insert_scan.simps) simp
    with Cons.IH [OF c, of "Some a"] False show ?thesis by simp
  qed
qed

lemma chain_link:
  assumes "chain m p (pre @ post)" "pre \<noteq> []" "obj \<notin> set (pre @ post)" "next_ev v = ptr post"
  shows "chain ((m(last pre := (m (last pre))\<lparr>next_ev := Some obj\<rparr>))(obj := v)) p (pre @ obj # post)"
  using assms(1-3)
proof (induction pre arbitrary: p)
  case Nil
  then show ?case by simp
next
  case (Cons a pre)
  let ?m = "\<lambda>l. (m(l := (m l)\<lparr>next_ev := Some obj\<rparr>))(obj := v)"
  from Cons.prems have p: "p = Some a" and c: "chain m (next_ev (m a)) (pre @ post)"
    and ao: "a \<noteq> obj" and o: "obj \<notin> set (pre @ post)" by auto
  from Cons.prems(1) have d: "distinct ((a # pre) @ post)" by (rule chain_distinct)
  show ?case
  proof (cases pre)
    case Nil
    with c have cp: "chain m (next_ev (m a)) post" by simp
    then have np: "next_ev (m a) = ptr post" by (rule chain_ptr)
    have "chain (?m a) (ptr post) post = chain m (ptr post) post"
      using d o Nil by (intro chain_cong) auto
    with cp np have "chain (?m a) (ptr post) post" by simp
    moreover from ao have "?m a a = (m a)\<lparr>next_ev := Some obj\<rparr>" and "?m a obj = v" by simp_all
    ultimately show ?thesis using p Nil assms(4) by (simp del: fun_upd_apply)
  next
    case (Cons b bs)
    then have ne: "pre \<noteq> []" and l: "last (a # pre) = last pre" by simp_all
    from d ne have "a \<noteq> last pre" by auto
    with ao have "next_ev (?m (last pre) a) = next_ev (m a)" by simp
    with Cons.IH [OF c ne o] p show ?thesis unfolding l by (simp del: fun_upd_apply)
  qed
qed

lemma chain_link_head:
  assumes "chain m p post" "obj \<notin> set post" "next_ev v = ptr post"
  shows "chain (m(obj := v)) (Some obj) (obj # post)"
proof -
  from assms(1) have "p = ptr post" by (rule chain_ptr)
  with assms show ?thesis by (simp add: chain_upd)
qed

lemma insert_event_result:
  assumes ch: "chain (events s) (head s) as" and obj: "obj \<notin> set as"
  shows "\<exists>s'. ticker_insert_event c s obj t i = Some s'
     \<and> chain (events s') (head s')
         (takeWhile (\<lambda>a. \<not> scan_stops c s t a) as @ obj # dropWhile (\<lambda>a. \<not> scan_stops c s t a) as)
     \<and> events s' obj = ev (t AND TICKER_TIME_MASK c) i (ptr (dropWhile (\<lambda>a. \<not> scan_stops c s t a) as))
     \<and> (\<forall>a. a \<noteq> obj \<longrightarrow> timestamp (events s' a) = timestamp (events s a)
                        \<and> id_ev (events s' a) = id_ev (events s a))
     \<and> head s' = (if takeWhile (\<lambda>a. \<not> scan_stops c s t a) as = [] then Some obj else head s)
     \<and> hw_calls s' = hw_calls s @
         (if takeWhile (\<lambda>a. \<not> scan_stops c s t a) as = []
          then [Disable_irq, Set_interrupt (t AND TICKER_TIME_MASK c), Enable_irq]
          else [Disable_irq, Enable_irq])
     \<and> event_handler s' = event_handler s \<and> counter s' = counter s \<and> reads s' = Suc (reads s)"
proof -
  define ts where "ts = t AND TICKER_TIME_MASK c"
  define r where "r = counter s (reads s) - TICKER_EXPECT_ISR_DELAY c"
  define m3 where "m3 = (events s)(obj := (events s obj)\<lparr>timestamp := ts, id_ev := i\<rparr>)"
  define pre where "pre = takeWhile (\<lambda>a. \<not> scan_stops c s t a) as"
  define post where "post = dropWhile (\<lambda>a. \<not> scan_stops c s t a) as"
  have as: "as = pre @ post" by (simp add: pre_def post_def)
  have c3: "chain m3 (head s) as" using ch obj by (simp add: m3_def chain_upd)
  have "takeWhile (\<lambda>a. \<not> ticker_timeIsInPeriod r ts (timestamp (m3 a))) as = pre"
    unfolding pre_def using obj
    by (intro takeWhile_cong) (auto simp: scan_stops_def m3_def r_def ts_def)
  moreover have "dropWhile (\<lambda>a. \<not> ticker_timeIsInPeriod r ts (timestamp (m3 a))) as = post"
    unfolding post_def using obj
    by (intro dropWhile_cong) (auto simp: scan_stops_def m3_def r_def ts_def)
  ultimately have sc: "insert_scan m3 r ts None (head s) =
      Some (if pre = [] then None else Some (last pre), ptr post)"
    using insert_scan_chain [OF c3, of r ts None] by simp
  show ?thesis
  proof (cases "pre = []")
    case True
    with c3 as have "chain m3 (head s) post" by simp
    then have "chain (m3(obj := (m3 obj)\<lparr>next_ev := ptr post\<rparr>)) (Some obj) (obj # post)"
      using obj as by (intro chain_link_head) auto
    with sc True show ?thesis
      unfolding pre_def [symmetric] post_def [symmetric]
      by (simp add: ticker_insert_event_def Let_def hw_def interface_read_def
          m3_def [symmetric] ts_def [symmetric] r_def [symmetric])
         (simp add: m3_def ev_def)
  next
    case False
    from c3 as have "chain m3 (head s) (pre @ post)" by simp
    then have "chain ((m3(last pre := (m3 (last pre))\<lparr>next_ev := Some obj\<rparr>))
        (obj := (m3 obj)\<lparr>next_ev := ptr post\<rparr>)) (head s) (pre @ obj # post)"
      using False obj as by (intro chain_link) auto
    moreover have "last pre \<noteq> obj" using False obj as last_in_set [of pre] by auto
    ultimately show ?thesis using sc False
      unfolding pre_def [symmetric] post_def [symmetric]
      by (simp add: ticker_insert_event_def Let_def hw_def interface_read_def
          m3_def [symmetric] ts_def [symmetric] r_def [symmetric])
         (simp add: m3_def ev_def)
  qed
qed

lemma takeWhile_reaches:
  "a \<in> set as \<Longrightarrow> \<forall>b\<in>set (takeWhile (\<lambda>b. b \<noteq> a) as). Q b \<Longrightarrow> Q a \<Longrightarrow> a \<in> set (takeWhile Q as)"
  by (induction as) auto

text \<open>
  C7: an insert of a record that is not yet linked into a well-formed queue returns, and it
  calls \<open>set_interrupt\<close>, with the new timestamp masked to the counter's width, exactly
  when the new record has become the head of the queue; otherwise its only hardware calls are
  \<open>__disable_irq\<close> and \<open>__enable_irq\<close>.
\<close>

theorem C7_insert_arming:
  assumes "chain (events s) (head s) as" and "obj \<notin> set as"
  shows "\<exists>s'. ticker_insert_event c s obj t i = Some s'
           \<and> hw_calls s' = hw_calls s @
               (if head s' = Some obj
                then [Disable_irq, Set_interrupt (t AND TICKER_TIME_MASK c), Enable_irq]
                else [Disable_irq, Enable_irq])"
proof -
  let ?pre = "takeWhile (\<lambda>a. \<not> scan_stops c s t a) as"
  from insert_event_result [OF assms, of c t i] obtain s' where
    r: "ticker_insert_event c s obj t i = Some s'"
    and h: "head s' = (if ?pre = [] then Some obj else head s)"
    and l: "hw_calls s' = hw_calls s @
         (if ?pre = [] then [Disable_irq, Set_interrupt (t AND TICKER_TIME_MASK c), Enable_irq]
          else [Disable_irq, Enable_irq])"
    by blast
  have "head s \<noteq> Some obj" using assms by (cases as) auto
  with h have "(head s' = Some obj) = (?pre = [])" by simp
  with r l show ?thesis by simp
qed

theorem C7_insert_arming_witness:
  "\<exists>s'. ticker_insert_event sample_consts (queue_at three_events (Some 1) 10) 4 50 14 = Some s'
         \<and> hw_calls s' = (if head s' = Some 4 then [Disable_irq, Set_interrupt 50, Enable_irq]
                          else [Disable_irq, Enable_irq])"
proof -
  let ?q = "queue_at three_events (Some 1) 10"
  have c: "chain (events ?q) (head ?q) [1, 2, 3]"
    by (simp add: queue_at_def three_events_def ev_def)
  have n: "4 \<notin> set [1, 2, 3 :: nat]" by simp
  have m: "50 AND TICKER_TIME_MASK sample_consts = 50" "hw_calls ?q = []"
    by (simp_all add: sample_consts_def queue_at_def)
  from C7_insert_arming [OF c n, of sample_consts 50 14] show ?thesis unfolding m by simp
qed

text \<open>
  The chain of \<open>stale_events\<close> is what two inserts into the empty queue leave, with the
  timestamps 100 and 200, while the counter reads 10.
\<close>

lemma stale_events_built:
  "insert_seq sample_consts (queue_at no_events None 10) [(1, 100, 21), (2, 200, 22)] =
     Some ((queue_at stale_events (Some 1) 10)
             \<lparr>hw_calls := [Disable_irq, Set_interrupt 100, Enable_irq, Disable_irq, Enable_irq],
              reads := 2\<rparr>)"
  by (simp add: ticker_insert_event_def insert_scan.simps interface_read_def Let_def hw_def
      queue_at_def stale_events_def no_events_def ev_def sample_consts_def
      ticker_timeIsInPeriod_def fun_eq_iff)

text \<open>
  C9, as stated: a new event whose timestamp equals that of an entry is placed after that
  entry. Here the chain holds the timestamps 100 and 200, and the third insert runs when the
  counter reads 160, so that its origin is 150 and the first entry is overdue. Seen from
  150, timestamp 100 lies almost a full period ahead (case A.2), so the new event with
  timestamp 200 is linked at the head, in front of the entry with timestamp 200.
\<close>

theorem C9_counterexample:
  "\<exists>s'. ticker_insert_event sample_consts (queue_at stale_events (Some 1) 160) 3 200 23 = Some s'
         \<and> chain (events s') (head s') [3, 1, 2]
         \<and> timestamp (events s' 3) = 200 \<and> timestamp (events s' 2) = 200"
proof -
  let ?q = "queue_at stale_events (Some 1) 160"
  have c: "chain (events ?q) (head ?q) [1, 2]"
    by (simp add: queue_at_def stale_events_def ev_def)
  have st: "scan_stops sample_consts ?q 200 1"
    by (simp add: scan_stops_def queue_at_def stale_events_def ev_def sample_consts_def
        ticker_timeIsInPeriod_def)
  have t: "timestamp (events ?q 2) = 200" by (simp add: queue_at_def stale_events_def ev_def)
  from insert_event_result [OF c, of 3 sample_consts 200 23] st t show ?thesis
    by (auto simp: ev_def sample_consts_def)
qed

text \<open>
  C9, amended: for all \<open>start\<close> and \<open>time\<close> with \<open>start \<noteq> time\<close>,
  \<open>ticker_timeIsInPeriod start time time\<close> is false. Consequently, when the origin of an
  insert (counter value less expected delay) differs from the new masked timestamp, the
  scan never stops at an entry with an equal timestamp, and every such entry that the scan
  reaches (no entry in front of it stops the scan) ends up in front of the new event.
\<close>

theorem C9_equal_timestamps_fifo:
  "(start \<noteq> time \<longrightarrow> \<not> ticker_timeIsInPeriod start time time)
   \<and> (chain (events s) (head s) as \<and> obj \<notin> set as
        \<and> counter s (reads s) - TICKER_EXPECT_ISR_DELAY c \<noteq> t AND TICKER_TIME_MASK c \<longrightarrow>
      (\<exists>s' pre post. ticker_insert_event c s obj t i = Some s'
          \<and> chain (events s') (head s') (pre @ obj # post) \<and> pre @ post = as
          \<and> (\<forall>a\<in>set as. timestamp (events s a) = t AND TICKER_TIME_MASK c
                \<longrightarrow> \<not> scan_stops c s t a)
          \<and> (\<forall>a\<in>set as. timestamp (events s a) = t AND TICKER_TIME_MASK c
                \<and> (\<forall>b\<in>set (takeWhile (\<lambda>b. b \<noteq> a) as). \<not> scan_stops c s t b)
                \<longrightarrow> a \<in> set pre)))"
proof (intro conjI impI)
  assume "start \<noteq> time"
  then show "\<not> ticker_timeIsInPeriod start time time"
    unfolding ticker_timeIsInPeriod_def by auto
next
  assume a: "chain (events s) (head s) as \<and> obj \<notin> set as
        \<and> counter s (reads s) - TICKER_EXPECT_ISR_DELAY c \<noteq> t AND TICKER_TIME_MASK c"
  let ?Q = "\<lambda>a. \<not> scan_stops c s t a"
  from a insert_event_result [of s as obj c t i] obtain s' where
    r: "ticker_insert_event c s obj t i = Some s'"
    and ch: "chain (events s') (head s') (takeWhile ?Q as @ obj # dropWhile ?Q as)"
    by blast
  have eq: "\<not> scan_stops c s t b" if "timestamp (events s b) = t AND TICKER_TIME_MASK c" for b
    using a that unfolding scan_stops_def ticker_timeIsInPeriod_def by auto
  have "\<forall>a\<in>set as. timestamp (events s a) = t AND TICKER_TIME_MASK c
                \<and> (\<forall>b\<in>set (takeWhile (\<lambda>b. b \<noteq> a) as). \<not> scan_stops c s t b)
                \<longrightarrow> a \<in> set (takeWhile ?Q as)"
    using eq by (auto intro: takeWhile_reaches)
  with r ch eq show "\<exists>s' pre post. ticker_insert_event c s obj t i = Some s'
          \<and> chain (events s') (head s') (pre @ obj # post) \<and> pre @ post = as
          \<and> (\<forall>a\<in>set as. timestamp (events s a) = t AND TICKER_TIME_MASK c
                \<longrightarrow> \<not> scan_stops c s t a)
          \<and> (\<forall>a\<in>set as. timestamp (events s a) = t AND TICKER_TIME_MASK c
                \<and> (\<forall>b\<in>set (takeWhile (\<lambda>b. b \<noteq> a) as). \<not> scan_stops c s t b)
                \<longrightarrow> a \<in> set pre)"
    by (intro exI [of _ s'] exI [of _ "takeWhile ?Q as"] exI [of _ "dropWhile ?Q as"]) simp
qed

theorem C9_equal_timestamps_fifo_witness:
  "\<not> ticker_timeIsInPeriod (0 :: 32 word) 200 200
   \<and> (\<exists>s' pre post.
        ticker_insert_event sample_consts (queue_at three_events (Some 1) 10) 4 200 14 = Some s'
        \<and> chain (events s') (head s') (pre @ 4 # post) \<and> pre @ post = [1, 2, 3] \<and> 2 \<in> set pre)"
proof -
  let ?q = "queue_at three_events (Some 1) 10"
  have c: "chain (events ?q) (head ?q) [1, 2, 3] \<and> 4 \<notin> set [1, 2, 3 :: nat]
      \<and> counter ?q (reads ?q) - TICKER_EXPECT_ISR_DELAY sample_consts \<noteq> 200 AND TICKER_TIME_MASK sample_consts"
    by (simp add: queue_at_def three_events_def ev_def sample_consts_def)
  have t: "timestamp (events ?q 2) = 200 AND TICKER_TIME_MASK sample_consts"
    by (simp add: queue_at_def three_events_def ev_def sample_consts_def)
  have n: "\<forall>b\<in>set (takeWhile (\<lambda>b. b \<noteq> 2) [1, 2, 3]). \<not> scan_stops sample_consts ?q 200 b"
    by (simp add: scan_stops_def queue_at_def three_events_def ev_def sample_consts_def
        ticker_timeIsInPeriod_def)
  from C9_equal_timestamps_fifo [of "0 :: 32 word" 200 ?q "[1, 2, 3]" 4 sample_consts 200 14] c t n
  show ?thesis by fastforce
qed

subsection \<open>Sorted insertion\<close>

text \<open>
  Where no timestamp in the queue equals the origin of the insert, the scan is a stable
  sorted insertion by age: a chain sorted by age stays sorted, and so it does over any
  sequence of inserts under a counter that stands still, as long as no inserted timestamp
  equals the origin.
\<close>

lemma key_sorted_cong:
  fixes f g :: "'a \<Rightarrow> 'b::linorder"
  shows "(\<And>a. a \<in> set as \<Longrightarrow> f a = g a) \<Longrightarrow>
   sorted_wrt (\<lambda>a b. f a \<le> f b) as = sorted_wrt (\<lambda>a b. g a \<le> g b) as"
  by (induction as) auto

lemma sorted_insert_between:
  fixes f :: "'a \<Rightarrow> 'b::linorder"
  assumes "sorted_wrt (\<lambda>a b. f a \<le> f b) as"
  shows "sorted_wrt (\<lambda>a b. f a \<le> f b)
           (takeWhile (\<lambda>a. f a \<le> f x) as @ x # dropWhile (\<lambda>a. f a \<le> f x) as)"
  using assms
proof (induction as)
  case Nil
  then show ?case by simp
next
  case (Cons a as)
  show ?case
  proof (cases "f a \<le> f x")
    case True
    with Cons have "\<forall>b\<in>set (takeWhile (\<lambda>a. f a \<le> f x) as @ x # dropWhile (\<lambda>a. f a \<le> f x) as). f a \<le> f b"
      by (auto dest: set_takeWhileD set_dropWhileD)
    with Cons True show ?thesis by simp
  next
    case False
    with Cons.prems show ?thesis by auto
  qed
qed

lemma insert_keeps_sorted:
  assumes ch: "chain (events s) (head s) as" and obj: "obj \<notin> set as"
    and r: "r = counter s (reads s) - TICKER_EXPECT_ISR_DELAY c"
    and so: "age_sorted r (events s) as"
    and ne: "\<forall>a\<in>set as. timestamp (events s a) \<noteq> r"
  shows "\<exists>s' bs. ticker_insert_event c s obj t i = Some s'
           \<and> chain (events s') (head s') bs \<and> set bs = insert obj (set as)
           \<and> age_sorted r (events s') bs
           \<and> timestamp (events s' obj) = t AND TICKER_TIME_MASK c
           \<and> (\<forall>a\<in>set as. timestamp (events s' a) = timestamp (events s a))
           \<and> counter s' = counter s"
proof -
  let ?ts = "t AND TICKER_TIME_MASK c"
  let ?Q = "\<lambda>a. \<not> scan_stops c s t a"
  let ?bs = "takeWhile ?Q as @ obj # dropWhile ?Q as"
  from insert_event_result [OF ch obj, of c t i] obtain s' where
    res: "ticker_insert_event c s obj t i = Some s'"
    and ch': "chain (events s') (head s') ?bs"
    and e: "events s' obj = ev ?ts i (ptr (dropWhile ?Q as))"
    and o: "\<forall>a. a \<noteq> obj \<longrightarrow> timestamp (events s' a) = timestamp (events s a)"
    and k: "counter s' = counter s"
    by blast
  define f where "f a = (if a = obj then age r ?ts else age r (timestamp (events s a)))" for a
  have Q: "?Q a = (f a \<le> f obj)" if "a \<in> set as" for a
    using that ne obj by (auto simp: scan_stops_def timeIsInPeriod_age r f_def not_less)
  have tw: "takeWhile ?Q as = takeWhile (\<lambda>a. f a \<le> f obj) as"
    by (rule takeWhile_cong) (simp_all add: Q)
  have dw: "dropWhile ?Q as = dropWhile (\<lambda>a. f a \<le> f obj) as"
    by (rule dropWhile_cong) (simp_all add: Q)
  have "sorted_wrt (\<lambda>a b. f a \<le> f b) as"
  proof -
    have "sorted_wrt (\<lambda>a b. f a \<le> f b) as = age_sorted r (events s) as"
      unfolding age_sorted_def using obj by (intro key_sorted_cong) (auto simp: f_def)
    with so show ?thesis by simp
  qed
  then have "sorted_wrt (\<lambda>a b. f a \<le> f b) ?bs" unfolding tw dw by (rule sorted_insert_between)
  moreover have "f a = age r (timestamp (events s' a))" for a
    using o e by (simp add: f_def ev_def)
  ultimately have "age_sorted r (events s') ?bs" by (simp add: age_sorted_def)
  moreover have "set ?bs = insert obj (set as)"
  proof -
    have "set (takeWhile ?Q as @ dropWhile ?Q as) = set as" by simp
    then show ?thesis by (simp del: takeWhile_dropWhile_id)
  qed
  moreover have "timestamp (events s' obj) = ?ts" using e by (simp add: ev_def)
  moreover have "\<forall>a\<in>set as. timestamp (events s' a) = timestamp (events s a)" using o obj by auto
  ultimately show ?thesis using res ch' k by blast
qed

lemma insert_seq_sorted:
  assumes "counter s = (\<lambda>_. now)" and "r = now - TICKER_EXPECT_ISR_DELAY c"
    and "chain (events s) (head s) as" and "age_sorted r (events s) as"
    and "\<forall>a\<in>set as. timestamp (events s a) \<noteq> r"
    and "distinct (map fst xs)" and "fst ` set xs \<inter> set as = {}"
    and "\<forall>x\<in>set xs. fst (snd x) AND TICKER_TIME_MASK c \<noteq> r"
  shows "\<exists>s' bs. insert_seq c s xs = Some s' \<and> chain (events s') (head s') bs
           \<and> set bs = set as \<union> fst ` set xs \<and> age_sorted r (events s') bs"
  using assms
proof (induction xs arbitrary: s as)
  case Nil
  then show ?case by auto
next
  case (Cons x xs)
  obtain obj t i where x: "x = (obj, t, i)" by (cases x)
  from Cons.prems x have obj: "obj \<notin> set as" by auto
  from Cons.prems have r: "r = counter s (reads s) - TICKER_EXPECT_ISR_DELAY c" by simp
  from insert_keeps_sorted [OF Cons.prems(3) obj r Cons.prems(4,5), of t i] obtain s1 bs1 where
    res: "ticker_insert_event c s obj t i = Some s1"
    and ch: "chain (events s1) (head s1) bs1" and set1: "set bs1 = insert obj (set as)"
    and so: "age_sorted r (events s1) bs1"
    and to: "timestamp (events s1 obj) = t AND TICKER_TIME_MASK c"
    and ta: "\<forall>a\<in>set as. timestamp (events s1 a) = timestamp (events s a)"
    and k: "counter s1 = counter s"
    by blast
  from Cons.prems x have "t AND TICKER_TIME_MASK c \<noteq> r" by simp
  with to ta set1 Cons.prems(5) have ne1: "\<forall>a\<in>set bs1. timestamp (events s1 a) \<noteq> r" by auto
  from Cons.prems x set1 have d1: "distinct (map fst xs)" "fst ` set xs \<inter> set bs1 = {}"
    by auto
  from Cons.prems have m1: "\<forall>x\<in>set xs. fst (snd x) AND TICKER_TIME_MASK c \<noteq> r" by simp
  from k Cons.prems(1) have k1: "counter s1 = (\<lambda>_. now)" by simp
  from Cons.IH [OF k1 Cons.prems(2) ch so ne1 d1 m1] obtain s' bs where
    "insert_seq c s1 xs = Some s'" "chain (events s') (head s') bs"
    "set bs = set bs1 \<union> fst ` set xs" "age_sorted r (events s') bs"
    by blast
  with res x set1 show ?case by (intro exI [of _ s'] exI [of _ bs]) auto
qed

text \<open>In a chain sorted by age the head is due no later than any other record.\<close>

lemma age_sorted_head:
  "age_sorted r m (a # as) \<Longrightarrow> b \<in> set (a # as) \<Longrightarrow> age r (timestamp (m a)) \<le> age r (timestamp (m b))"
  by (auto simp: age_sorted_def)

text \<open>
  C4, at an input where the code breaks it. The counter reads 17 at every call and the
  expected delay is 10, so the origin of every insert is 7. Three inserts into the empty
  queue, with the timestamps 8, 7 and 10, leave the chain in the order 10, 7, 8: the ages
  seen from the origin are 3, 0 and 1, and the head (timestamp 10) does not come before the
  last entry (timestamp 8) by \<open>ticker_timeIsInPeriod\<close> either. The third insert stops at
  the entry whose timestamp equals the origin and links the later event in front of it.
\<close>

theorem C4_failing_input:
  "\<exists>s'. insert_seq sample_consts (queue_at no_events None 17) [(1, 8, 31), (2, 7, 32), (3, 10, 33)]
           = Some s'
         \<and> chain (events s') (head s') [3, 2, 1]
         \<and> map (\<lambda>a. timestamp (events s' a)) [3, 2, 1] = [10, 7, 8]
         \<and> map (age (7 :: timestamp_t)) [10, 7, 8] = [3, 0, 1]
         \<and> \<not> ticker_timeIsInPeriod (7 :: timestamp_t) 10 8
         \<and> hw_calls s' = [Disable_irq, Set_interrupt 8, Enable_irq,
                          Disable_irq, Set_interrupt 7, Enable_irq,
                          Disable_irq, Set_interrupt 10, Enable_irq]"
proof -
  let ?c = sample_consts
  let ?q = "queue_at no_events None 17"
  have c0: "chain (events ?q) (head ?q) []" by (simp add: queue_at_def)
  from insert_event_result [OF c0, of 1 ?c 8 31] obtain s1 where
    r1: "ticker_insert_event ?c ?q 1 8 31 = Some s1"
    and c1: "chain (events s1) (head s1) [1]"
    and e1: "events s1 1 = ev 8 31 None"
    and l1: "hw_calls s1 = [Disable_irq, Set_interrupt 8, Enable_irq]"
    and k1: "counter s1 = (\<lambda>_. 17)"
    by (auto simp: sample_consts_def queue_at_def ptr_def simp del: One_nat_def)
  have st1: "scan_stops ?c s1 7 1"
    by (simp add: scan_stops_def e1 k1 ev_def sample_consts_def ticker_timeIsInPeriod_def
        del: One_nat_def)
  from insert_event_result [OF c1, of 2 ?c 7 32] st1 obtain s2 where
    r2: "ticker_insert_event ?c s1 2 7 32 = Some s2"
    and c2: "chain (events s2) (head s2) [2, 1]"
    and e2: "timestamp (events s2 2) = 7" "timestamp (events s2 1) = 8"
    and l2: "hw_calls s2 = [Disable_irq, Set_interrupt 8, Enable_irq, Disable_irq, Set_interrupt 7, Enable_irq]"
    and k2: "counter s2 = (\<lambda>_. 17)"
    by (auto simp: sample_consts_def ptr_def e1 l1 k1 ev_def simp del: One_nat_def)
  have st2: "scan_stops ?c s2 10 2"
    by (simp add: scan_stops_def e2 k2 sample_consts_def ticker_timeIsInPeriod_def
        del: One_nat_def)
  from insert_event_result [OF c2, of 3 ?c 10 33] st2 obtain s3 where
    r3: "ticker_insert_event ?c s2 3 10 33 = Some s3"
    and c3: "chain (events s3) (head s3) [3, 2, 1]"
    and e3: "timestamp (events s3 3) = 10" "timestamp (events s3 2) = 7" "timestamp (events s3 1) = 8"
    and l3: "hw_calls s3 = [Disable_irq, Set_interrupt 8, Enable_irq, Disable_irq, Set_interrupt 7, Enable_irq,
          Disable_irq, Set_interrupt 10, Enable_irq]"
    by (auto simp: sample_consts_def ptr_def e2 l2 k2 ev_def simp del: One_nat_def)
  from r1 r2 r3 c3 e3 l3 show ?thesis
    by (simp add: age_def ticker_timeIsInPeriod_def del: One_nat_def)
qed

section \<open>Unlinking leaves the record as it is\<close>

text \<open>
  C10: unlinking writes the queue head or the predecessor's next link and nothing else.
  When \<open>ticker_remove_event\<close> removes a linked record of a well-formed queue, the record
  itself is left as it was, so its next field still points at its former successor: for the
  head only the queue head is rewritten, otherwise only the next field of the one record in
  front of it. A call of \<open>ticker_irq_handler\<close> (with handlers that do not touch the queue
  themselves) advances the queue head and leaves every event record as it was. For any
  handlers, an iteration of the drain loop that dispatches the head \<open>a\<close> continues from
  the state in which only the queue head has been rewritten, to the record's next field
  (and the counter has been read once): the record itself is handed to the handler as it
  was.
\<close>

theorem C10_unlink_frame:
  "(chain (events s) (head s) as \<and> obj \<in> set as \<longrightarrow>
      (\<exists>s'. ticker_remove_event s obj = Some s'
         \<and> events s' obj = events s obj
         \<and> (head s = Some obj \<longrightarrow> head s' = next_ev (events s obj) \<and> events s' = events s)
         \<and> (head s \<noteq> Some obj \<longrightarrow> head s' = head s
              \<and> (\<exists>q\<in>set as. next_ev (events s q) = Some obj
                    \<and> events s' = (events s)(q := (events s q)\<lparr>next_ev := next_ev (events s obj)\<rparr>)))))
   \<and> (chain (events s) (head s) as \<and> keeps_queue cb \<longrightarrow>
      (\<exists>n ids s'. n \<le> length as \<and> ticker_irq_handler c cb s = Some (ids, s')
         \<and> head s' = ptr (drop n as) \<and> events s' = events s))
   \<and> (head s = Some a \<and> event_due c (timestamp (events s a)) (counter s (reads s)) \<longrightarrow>
        irq_loop c cb acc s =
          (case event_handler s of
             None \<Rightarrow> irq_loop c cb acc (s\<lparr>reads := Suc (reads s), head := next_ev (events s a)\<rparr>)
           | Some f \<Rightarrow>
               irq_loop c cb (acc @ [id_ev (events s a)])
                 (cb f (id_ev (events s a))
                    (s\<lparr>reads := Suc (reads s), head := next_ev (events s a)\<rparr>))))"
proof (intro conjI impI)
  assume a: "chain (events s) (head s) as \<and> obj \<in> set as"
  then obtain pre post where as: "as = pre @ obj # post" by (auto simp: in_set_conv_decomp)
  from a have d: "distinct as" by (auto dest: chain_distinct)
  show "\<exists>s'. ticker_remove_event s obj = Some s'
         \<and> events s' obj = events s obj
         \<and> (head s = Some obj \<longrightarrow> head s' = next_ev (events s obj) \<and> events s' = events s)
         \<and> (head s \<noteq> Some obj \<longrightarrow> head s' = head s
              \<and> (\<exists>q\<in>set as. next_ev (events s q) = Some obj
                    \<and> events s' = (events s)(q := (events s q)\<lparr>next_ev := next_ev (events s obj)\<rparr>)))"
  proof (cases "head s = Some obj")
    case True
    then show ?thesis by (simp add: remove_head)
  next
    case False
    with a as have ne: "pre \<noteq> []" by (cases pre) auto
    from a as have ch: "chain (events s) (head s) (pre @ obj # post)" by simp
    from d as ne have lo: "last pre \<noteq> obj" using last_in_set [of pre] by auto
    from ne as have li: "last pre \<in> set as" by simp
    let ?m = "(events s)(last pre := (events s (last pre))\<lparr>next_ev := next_ev (events s obj)\<rparr>)"
    let ?s' = "s\<lparr>events := ?m, hw_calls := hw_calls s @ [Disable_irq, Enable_irq]\<rparr>"
    have r: "ticker_remove_event s obj = Some ?s'" using ch ne by (rule remove_inner)
    have p: "next_ev (events s (last pre)) = Some obj" using ch ne by (rule chain_pred)
    have o: "events ?s' obj = events s obj" using lo by simp
    have q: "\<exists>q\<in>set as. next_ev (events s q) = Some obj
        \<and> events ?s' = (events s)(q := (events s q)\<lparr>next_ev := next_ev (events s obj)\<rparr>)"
      using li p by (intro bexI [of _ "last pre"]) simp_all
    have h: "head ?s' = head s" by simp
    from r o q h False show ?thesis by blast
  qed
next
  assume a: "chain (events s) (head s) as \<and> keeps_queue cb"
  then have c: "chain (events (hw Clear_interrupt s)) (head (hw Clear_interrupt s)) as"
    by (simp add: hw_def)
  from a irq_loop_returns [OF _ c, of cb c "[]"] obtain n ids s' where
    "n \<le> length as" "irq_loop c cb [] (hw Clear_interrupt s) = Some (ids, s')"
    "head s' = ptr (drop n as)" "events s' = events s"
    by (auto simp: hw_def)
  then show "\<exists>n ids s'. n \<le> length as \<and> ticker_irq_handler c cb s = Some (ids, s')
         \<and> head s' = ptr (drop n as) \<and> events s' = events s"
    unfolding ticker_irq_handler_def by blast
next
  assume "head s = Some a \<and> event_due c (timestamp (events s a)) (counter s (reads s))"
  then show "irq_loop c cb acc s =
          (case event_handler s of
             None \<Rightarrow> irq_loop c cb acc (s\<lparr>reads := Suc (reads s), head := next_ev (events s a)\<rparr>)
           | Some f \<Rightarrow>
               irq_loop c cb (acc @ [id_ev (events s a)])
                 (cb f (id_ev (events s a))
                    (s\<lparr>reads := Suc (reads s), head := next_ev (events s a)\<rparr>)))"
    by (intro irq_due_step) simp_all
qed

theorem C10_unlink_frame_witness:
  "(\<exists>s'. ticker_remove_event (queue_at three_events (Some 1) 150) 2 = Some s'
        \<and> events s' 2 = three_events 2 \<and> head s' = Some 1
        \<and> (\<exists>q\<in>set [1, 2, 3]. next_ev (three_events q) = Some 2
              \<and> events s' = three_events(q := (three_events q)\<lparr>next_ev := next_ev (three_events 2)\<rparr>)))
   \<and> (\<exists>n ids s'.
        ticker_irq_handler sample_consts idle_handler (queue_at three_events (Some 1) 150) = Some (ids, s')
        \<and> head s' = ptr (drop n [1, 2, 3]) \<and> events s' = three_events)
   \<and> irq_loop sample_consts idle_handler [] (queue_at three_events (Some 1) 150) =
       irq_loop sample_consts idle_handler [11]
         (idle_handler 0 11 ((queue_at three_events (Some 1) 150)\<lparr>reads := 1, head := Some 2\<rparr>))"
proof -
  let ?q = "queue_at three_events (Some 1) 150"
  have k: "keeps_queue idle_handler" by (simp add: keeps_queue_def idle_handler_def)
  have c: "chain (events ?q) (head ?q) [1, 2, 3]"
    by (simp add: queue_at_def three_events_def ev_def)
  have e: "events ?q = three_events" "head ?q = Some 1" by (simp_all add: queue_at_def)
  have m: "2 \<in> set [1, 2, 3 :: nat]" "Some (1 :: nat) \<noteq> Some 2" by simp_all
  have d: "event_due sample_consts (timestamp (events ?q 1)) (counter ?q (reads ?q))"
    by (simp add: event_due_def sample_consts_def queue_at_def three_events_def ev_def)
  have v: "event_handler ?q = Some 0" "id_ev (three_events 1) = 11"
    "next_ev (three_events 1) = Some 2" "reads ?q = 0"
    by (simp_all add: queue_at_def three_events_def ev_def)
  note t = C10_unlink_frame [of ?q "[1, 2, 3]" 2 idle_handler sample_consts 1 "[]"]
  from t c k m have "(\<exists>s'. ticker_remove_event ?q 2 = Some s'
        \<and> events s' 2 = three_events 2 \<and> head s' = Some 1
        \<and> (\<exists>q\<in>set [1, 2, 3]. next_ev (three_events q) = Some 2
              \<and> events s' = three_events(q := (three_events q)\<lparr>next_ev := next_ev (three_events 2)\<rparr>)))
   \<and> (\<exists>n ids s'. ticker_irq_handler sample_consts idle_handler ?q = Some (ids, s')
        \<and> head s' = ptr (drop n [1, 2, 3]) \<and> events s' = three_events)"
    unfolding e by blast
  moreover from t d have "irq_loop sample_consts idle_handler [] ?q =
       irq_loop sample_consts idle_handler [11] (idle_handler 0 11 (?q\<lparr>reads := 1, head := Some 2\<rparr>))"
    unfolding e v by simp
  ultimately show ?thesis by blast
qed

end
